theory Spec2Isabelle
  imports Main
begin

section \<open>The term representation used by LetList\<close>

text \<open>
  \<^verbatim>\<open>let_list.h\<close> builds on three node kinds of \<^verbatim>\<open>tvm/relay/expr.h\<close> and
  \<^verbatim>\<open>tvm/relay/type.h\<close>: \<^verbatim>\<open>Type\<close>, \<^verbatim>\<open>Var\<close> and \<^verbatim>\<open>Expr\<close>. They are reference types:
  a \<^verbatim>\<open>Var\<close> is a handle to a \<^verbatim>\<open>VarNode\<close> object, and two handles are the same variable
  exactly when they point to the same object. The variable nodes therefore live in an
  explicit store, and a \<^verbatim>\<open>Var\<close> is an address in it. The other expression nodes are
  represented by their structure.
\<close>

type_synonym addr = nat

text \<open>\<^verbatim>\<open>Type()\<close>, the default-constructed handle, is the undefined type \<open>Type_null\<close>.\<close>

datatype Type = Type_null | Type_node nat

record VarNode =
  name_hint :: string
  type_annotation :: Type

datatype Var = Var addr

type_synonym heap = "VarNode list"

definition present :: "heap \<Rightarrow> Var \<Rightarrow> bool" where
  "present h v = (case v of Var a \<Rightarrow> a < length h)"

definition node_of :: "heap \<Rightarrow> Var \<Rightarrow> VarNode option" where
  "node_of h v = (case v of Var a \<Rightarrow> if a < length h then Some (h ! a) else None)"

definition var_name :: "heap \<Rightarrow> Var \<Rightarrow> string option" where
  "var_name h v = map_option name_hint (node_of h v)"


text \<open>
  Modelled from the spec: \<^verbatim>\<open>VarNode::make\<close> is declared in \<^verbatim>\<open>tvm/relay/expr.h\<close>, which is
  not part of the sources at hand. The spec describes a variable as "a distinguishable named
  reference; must support being freshly synthesized with a name guaranteed unique within a
  sequence, optionally annotated with a declared type", and the anonymous push as
  synthesizing "a fresh variable not colliding with any previously generated name in this
  sequence", from "a fixed placeholder base name". \<^verbatim>\<open>VarNode::make(name, ty)\<close> therefore
  allocates a new node, at an address no existing node has, gives it a name made from the
  base name \<open>name\<close> that no existing node carries, stores the type, and returns the handle.

  \<open>unique_name name taken\<close> is the base name itself when it is not taken, and otherwise the
  base name with as many underscores added as it takes to leave the taken names.
\<close>

function unique_name :: "string \<Rightarrow> string list \<Rightarrow> string" where
  "unique_name name taken =
     (if name \<in> set taken then unique_name (name @ ''_'') (removeAll name taken) else name)"
  by pat_completeness auto
termination
  by (relation "measure (\<lambda>(name, taken). length taken)") (auto simp: length_removeAll_less)

declare unique_name.simps [simp del]

definition VarNode_make :: "string \<Rightarrow> Type \<Rightarrow> heap \<Rightarrow> Var \<times> heap" where
  "VarNode_make name ty h =
     (Var (length h),
      h @ [\<lparr>name_hint = unique_name name (map name_hint h), type_annotation = ty\<rparr>])"

text \<open>
  Modelled from the spec: \<^verbatim>\<open>LetNode::make\<close> is declared in \<^verbatim>\<open>tvm/relay/expr.h\<close> as well.
  The spec calls the let-construct "a ternary node form (bound variable, bound expression,
  continuation expression)"; it is the constructor \<open>LetNode\<close>. \<open>VarE\<close> is a variable used as
  an expression; \<open>Call\<close>, \<open>Op\<close> and \<open>Constant\<close> stand for the other expression forms a pass
  may hand to the builder.
\<close>

datatype Expr =
    VarE Var
  | LetNode Var Expr Expr
  | Call Expr "Expr list"
  | Op string
  | Constant nat

section \<open>LetList\<close>

text \<open>
  \<^verbatim>\<open>CHECK(cond)\<close> aborts the operation with a fatal error when \<^verbatim>\<open>cond\<close> is false;
  \<open>CheckFailed\<close> carries the text of the condition. \<open>Thrown\<close> is any other failure, raised
  by code of the caller.
\<close>

datatype error = CheckFailed string | Thrown string

text \<open>
  The fields \<open>lets\<close> and \<open>used\<close> are the members \<^verbatim>\<open>lets_\<close> and \<^verbatim>\<open>used_\<close> of the class.
\<close>

record LetList =
  lets :: "(Var \<times> Expr) list"
  used :: bool

text \<open>A default-constructed \<^verbatim>\<open>LetList\<close>: no bindings, \<^verbatim>\<open>used_ = false\<close>.\<close>

definition LetList_new :: LetList where
  "LetList_new = \<lparr>lets = [], used = False\<rparr>"

text \<open>\<^verbatim>\<open>Var Push(Var pv, Expr expr)\<close>\<close>

definition Push :: "Var \<Rightarrow> Expr \<Rightarrow> LetList \<Rightarrow> error + (Var \<times> LetList)" where
  "Push pv expr ll =
     (if used ll then Inl (CheckFailed ''!used_'')
      else Inr (pv, ll\<lparr>lets := lets ll @ [(pv, expr)]\<rparr>))"

text \<open>
  \<^verbatim>\<open>Var Push(Type ty, Expr expr)\<close>: the argument \<^verbatim>\<open>VarNode::make("x", ty)\<close> is evaluated
  first, then the explicit-variable overload runs.
\<close>

definition Push_ty :: "Type \<Rightarrow> Expr \<Rightarrow> heap \<times> LetList \<Rightarrow> error + (Var \<times> heap \<times> LetList)" where
  "Push_ty ty expr s =
     (case s of (h, ll) \<Rightarrow>
        (case VarNode_make ''x'' ty h of (pv, h') \<Rightarrow>
           (case Push pv expr ll of
              Inl e \<Rightarrow> Inl e
            | Inr (v, ll') \<Rightarrow> Inr (v, h', ll'))))"

text \<open>\<^verbatim>\<open>Var Push(Expr expr)\<close>\<close>

definition Push_expr :: "Expr \<Rightarrow> heap \<times> LetList \<Rightarrow> error + (Var \<times> heap \<times> LetList)" where
  "Push_expr expr s = Push_ty Type_null expr s"

text \<open>
  The loop of \<^verbatim>\<open>Get\<close> walks \<^verbatim>\<open>lets_\<close> with a reverse iterator, from \<^verbatim>\<open>rbegin()\<close> to
  \<^verbatim>\<open>rend()\<close>; \<open>Get_loop\<close> takes the elements in the order the iterator visits them.
\<close>

fun Get_loop :: "(Var \<times> Expr) list \<Rightarrow> Expr \<Rightarrow> Expr" where
  "Get_loop [] ret = ret"
| "Get_loop (rit # rest) ret = Get_loop rest (LetNode (fst rit) (snd rit) ret)"

text \<open>\<^verbatim>\<open>Expr Get(const Expr& body)\<close>\<close>

definition Get :: "Expr \<Rightarrow> LetList \<Rightarrow> error + (Expr \<times> LetList)" where
  "Get body ll =
     (if used ll then Inl (CheckFailed ''!used_'')
      else Inr (Get_loop (rev (lets ll)) body, ll\<lparr>used := True\<rparr>))"

text \<open>
  \<^verbatim>\<open>static Expr With(F&& f)\<close>. The callback receives a pointer to the local builder; it
  may allocate nodes, change the builder through its operations, or fail. Besides the
  expression, the model returns the store and the local builder as they are when \<^verbatim>\<open>With\<close>
  returns, so that the builder's lifecycle can be stated.
\<close>

type_synonym callback = "heap \<times> LetList \<Rightarrow> error + (Expr \<times> heap \<times> LetList)"

definition With :: "callback \<Rightarrow> heap \<Rightarrow> error + (Expr \<times> heap \<times> LetList)" where
  "With f h =
     (let ll = LetList_new in
      case f (h, ll) of
        Inl e \<Rightarrow> Inl e
      | Inr (body, h', ll') \<Rightarrow>
          (case Get body ll' of
             Inl e \<Rightarrow> Inl e
           | Inr (ret, ll'') \<Rightarrow> Inr (ret, h', ll'')))"

section \<open>Callers\<close>

text \<open>
  A pass calls the three overloads of \<^verbatim>\<open>Push\<close> in some order on one builder. A
  \<open>push_call\<close> is one such call with its arguments; \<open>run_pushes\<close> performs the calls from
  left to right on the same builder, stops at the first failure, and collects the variables
  the calls return.
\<close>

datatype push_call = PushVar Var Expr | PushType Type Expr | PushExpr Expr

fun call_expr :: "push_call \<Rightarrow> Expr" where
  "call_expr (PushVar pv expr) = expr"
| "call_expr (PushType ty expr) = expr"
| "call_expr (PushExpr expr) = expr"

fun anonymous :: "push_call \<Rightarrow> bool" where
  "anonymous (PushVar pv expr) = False"
| "anonymous (PushType ty expr) = True"
| "anonymous (PushExpr expr) = True"

fun do_push :: "push_call \<Rightarrow> heap \<times> LetList \<Rightarrow> error + (Var \<times> heap \<times> LetList)" where
  "do_push (PushVar pv expr) (h, ll) =
     (case Push pv expr ll of Inl e \<Rightarrow> Inl e | Inr (v, ll') \<Rightarrow> Inr (v, h, ll'))"
| "do_push (PushType ty expr) (h, ll) = Push_ty ty expr (h, ll)"
| "do_push (PushExpr expr) (h, ll) = Push_expr expr (h, ll)"

fun run_pushes :: "push_call list \<Rightarrow> heap \<times> LetList \<Rightarrow> error + (Var list \<times> heap \<times> LetList)" where
  "run_pushes [] (h, ll) = Inr ([], h, ll)"
| "run_pushes (c # cs) (h, ll) =
     (case do_push c (h, ll) of
        Inl e \<Rightarrow> Inl e
      | Inr (v, h1, ll1) \<Rightarrow>
          (case run_pushes cs (h1, ll1) of
             Inl e \<Rightarrow> Inl e
           | Inr (vs, h', ll') \<Rightarrow> Inr (v # vs, h', ll')))"

text \<open>
  Variables passed to the explicit-variable overload are the caller's: \<open>handles_exist h cs\<close>
  says that every handle the calls \<open>cs\<close> pass refers to a node of the store \<open>h\<close>, that is,
  to a variable the caller made before the calls began.
\<close>

fun handles_exist :: "heap \<Rightarrow> push_call list \<Rightarrow> bool" where
  "handles_exist h [] = True"
| "handles_exist h (PushVar pv expr # cs) = (present h pv \<and> handles_exist h cs)"
| "handles_exist h (PushType ty expr # cs) = handles_exist h cs"
| "handles_exist h (PushExpr expr # cs) = handles_exist h cs"

text \<open>
  The example of the documentation of \<^verbatim>\<open>With\<close>: the callback of \<^verbatim>\<open>mult_sixteen\<close>, which
  pushes \<^verbatim>\<open>a + a\<close>, \<^verbatim>\<open>b + b\<close>, \<^verbatim>\<open>c + c\<close> and returns \<^verbatim>\<open>d + d\<close>.
\<close>

definition plus :: Expr where
  "plus = Op ''plus''"

definition mult_sixteen_callback :: "Var \<Rightarrow> callback" where
  "mult_sixteen_callback a s =
     (case Push_expr (Call plus [VarE a, VarE a]) s of
        Inl e \<Rightarrow> Inl e
      | Inr (b, s1) \<Rightarrow>
          (case Push_expr (Call plus [VarE b, VarE b]) s1 of
             Inl e \<Rightarrow> Inl e
           | Inr (c, s2) \<Rightarrow>
               (case Push_expr (Call plus [VarE c, VarE c]) s2 of
                  Inl e \<Rightarrow> Inl e
                | Inr (d, s3) \<Rightarrow> Inr (Call plus [VarE d, VarE d], fst s3, snd s3))))"

definition mult_sixteen :: "Var \<Rightarrow> heap \<Rightarrow> error + (Expr \<times> heap \<times> LetList)" where
  "mult_sixteen a h = With (mult_sixteen_callback a) h"

section \<open>Reading a nest of lets\<close>

text \<open>
  \<open>unlet n e\<close> takes \<open>n\<close> let-constructs off the outside of \<open>e\<close>: it returns their bindings,
  the outermost first, and what is left; there is no result when \<open>e\<close> has fewer than \<open>n\<close>
  let-levels. \<open>let_at k e\<close> is the binding of the let at depth \<open>k\<close>, the outermost being at
  depth 0.
\<close>

fun unlet :: "nat \<Rightarrow> Expr \<Rightarrow> ((Var \<times> Expr) list \<times> Expr) option" where
  "unlet 0 e = Some ([], e)"
| "unlet (Suc n) (LetNode v x b) =
     (case unlet n b of None \<Rightarrow> None | Some (bs, r) \<Rightarrow> Some ((v, x) # bs, r))"
| "unlet (Suc n) e = None"

fun let_at :: "nat \<Rightarrow> Expr \<Rightarrow> (Var \<times> Expr) option" where
  "let_at 0 (LetNode v x b) = Some (v, x)"
| "let_at (Suc k) (LetNode v x b) = let_at k b"
| "let_at k e = None"

section \<open>The scoped wrapper as the specification words it\<close>

text \<open>
  "The wrapper creates a fresh builder, invokes the operation with it, then calls Get on the
  operation's returned body, and returns the finalized nested-let expression"; a failure of
  a step is the failure of the whole. \<open>then_do\<close> sequences two steps that may fail.
\<close>

definition then_do :: "error + 'a \<Rightarrow> ('a \<Rightarrow> error + 'b) \<Rightarrow> error + 'b" where
  "then_do m k = (case m of Inl e \<Rightarrow> Inl e | Inr x \<Rightarrow> k x)"

definition With_spec :: "callback \<Rightarrow> heap \<Rightarrow> error + (Expr \<times> heap \<times> LetList)" where
  "With_spec f h =
     then_do (f (h, \<lparr>lets = [], used = False\<rparr>)) (\<lambda>(body, h', ll).
     then_do (Get body ll) (\<lambda>(ret, ll'). Inr (ret, h', ll')))"

section \<open>Making a variable\<close>

lemma unique_name_length: "length name \<le> length (unique_name name taken)"
proof (induction name taken rule: unique_name.induct)
  case (1 name taken)
  show ?case
  proof (cases "name \<in> set taken")
    case True
    from "1.IH" [OF True] have "length name \<le> length (unique_name (name @ ''_'') (removeAll name taken))"
      by simp
    with True show ?thesis by (simp add: unique_name.simps [of name taken])
  next
    case False
    then show ?thesis by (simp add: unique_name.simps [of name taken])
  qed
qed

lemma unique_name_not_taken: "unique_name name taken \<notin> set taken"
proof (induction name taken rule: unique_name.induct)
  case (1 name taken)
  show ?case
  proof (cases "name \<in> set taken")
    case True
    let ?r = "unique_name (name @ ''_'') (removeAll name taken)"
    from "1.IH" [OF True] have a: "?r \<notin> set (removeAll name taken)" .
    from unique_name_length [of "name @ ''_''" "removeAll name taken"]
    have "?r \<noteq> name" by auto
    with a have "?r \<notin> set taken" by simp
    with True show ?thesis by (simp add: unique_name.simps [of name taken])
  next
    case False
    then show ?thesis by (simp add: unique_name.simps [of name taken])
  qed
qed

lemma unique_name_free: "name \<notin> set taken \<Longrightarrow> unique_name name taken = name"
  by (simp add: unique_name.simps [of name taken])


lemma VarNode_make_snd:
  "\<exists>n. snd (VarNode_make name ty h) = h @ [n] \<and> type_annotation n = ty
       \<and> name_hint n \<notin> name_hint ` set h"
  using unique_name_not_taken [of name "map name_hint h"] by (simp add: VarNode_make_def)

section \<open>Single calls\<close>

lemma Push_open:
  "\<not> used ll \<Longrightarrow> Push pv expr ll = Inr (pv, ll\<lparr>lets := lets ll @ [(pv, expr)]\<rparr>)"
  by (simp add: Push_def)

lemma Push_closed: "used ll \<Longrightarrow> Push pv expr ll = Inl (CheckFailed ''!used_'')"
  by (simp add: Push_def)

lemma Push_ty_open:
  "\<not> used ll \<Longrightarrow> Push_ty ty expr (h, ll) =
     Inr (Var (length h), snd (VarNode_make ''x'' ty h),
          ll\<lparr>lets := lets ll @ [(Var (length h), expr)]\<rparr>)"
  by (simp add: Push_ty_def VarNode_make_def Push_def)

lemma Push_ty_closed: "used ll \<Longrightarrow> Push_ty ty expr (h, ll) = Inl (CheckFailed ''!used_'')"
  by (simp add: Push_ty_def VarNode_make_def Push_def)

lemma Get_open:
  "\<not> used ll \<Longrightarrow> Get body ll = Inr (Get_loop (rev (lets ll)) body, ll\<lparr>used := True\<rparr>)"
  by (simp add: Get_def)

lemma Get_closed: "used ll \<Longrightarrow> Get body ll = Inl (CheckFailed ''!used_'')"
  by (simp add: Get_def)

section \<open>Sequences of calls\<close>

lemma do_push_PushVar_open:
  "\<not> used ll \<Longrightarrow> do_push (PushVar pv expr) (h, ll) = Inr (pv, h, ll\<lparr>lets := lets ll @ [(pv, expr)]\<rparr>)"
  by (simp add: Push_open)

lemma do_push_closed: "used ll \<Longrightarrow> do_push c (h, ll) = Inl (CheckFailed ''!used_'')"
  by (cases c) (simp_all add: Push_closed Push_ty_closed Push_expr_def)

text \<open>What one successful call does to the store and to the builder.\<close>

lemma do_push_Inr:
  assumes "do_push c (h, ll) = Inr (v, h1, ll1)"
  shows "\<not> used ll" and "\<not> used ll1" and "lets ll1 = lets ll @ [(v, call_expr c)]"
    and "anonymous c \<Longrightarrow> v = Var (length h)"
    and "anonymous c \<Longrightarrow> \<exists>n. h1 = h @ [n] \<and> name_hint n \<notin> name_hint ` set h
           \<and> (\<forall>t e. c = PushType t e \<longrightarrow> type_annotation n = t)
           \<and> (\<forall>e. c = PushExpr e \<longrightarrow> type_annotation n = Type_null)"
    and "\<not> anonymous c \<Longrightarrow> h1 = h \<and> c = PushVar v (call_expr c)"
    and "length h \<le> length h1"
proof -
  show o: "\<not> used ll"
    using assms do_push_closed [of ll c h] by auto
  show "\<not> used ll1" "lets ll1 = lets ll @ [(v, call_expr c)]" "length h \<le> length h1"
    using assms o
    by (cases c; simp add: Push_open Push_ty_open Push_expr_def VarNode_make_def; fastforce)+
  show "anonymous c \<Longrightarrow> v = Var (length h)"
    using assms o by (cases c) (auto simp: Push_ty_open Push_expr_def)
  show "anonymous c \<Longrightarrow> \<exists>n. h1 = h @ [n] \<and> name_hint n \<notin> name_hint ` set h
           \<and> (\<forall>t e. c = PushType t e \<longrightarrow> type_annotation n = t)
           \<and> (\<forall>e. c = PushExpr e \<longrightarrow> type_annotation n = Type_null)"
  proof (cases c)
    case (PushVar pv e)
    assume "anonymous c"
    with PushVar show ?thesis by simp
  next
    case (PushType t e)
    with assms o have "h1 = snd (VarNode_make ''x'' t h)" by (simp add: Push_ty_open)
    with VarNode_make_snd [of "''x''" t h] PushType show ?thesis by auto
  next
    case (PushExpr e)
    with assms o have "h1 = snd (VarNode_make ''x'' Type_null h)"
      by (simp add: Push_expr_def Push_ty_open)
    with VarNode_make_snd [of "''x''" Type_null h] PushExpr show ?thesis by auto
  qed
  show "\<not> anonymous c \<Longrightarrow> h1 = h \<and> c = PushVar v (call_expr c)"
    using assms o by (cases c) (auto simp: Push_open)
qed

lemma do_push_open_ex:
  "\<not> used ll \<Longrightarrow> \<exists>v h1 ll1. do_push c (h, ll) = Inr (v, h1, ll1)"
  by (cases c) (simp_all add: Push_open Push_ty_open Push_expr_def)

lemma run_pushes_Cons_Inr:
  assumes "run_pushes (c # cs) (h, ll) = Inr (vs, h', ll')"
  obtains v h1 ll1 vs' where "do_push c (h, ll) = Inr (v, h1, ll1)"
    and "run_pushes cs (h1, ll1) = Inr (vs', h', ll')" and "vs = v # vs'"
  using assms by (auto split: sum.splits)

lemma run_pushes_open_ex:
  "\<not> used ll \<Longrightarrow> \<exists>vs h' ll'. run_pushes cs (h, ll) = Inr (vs, h', ll')"
proof (induction cs arbitrary: h ll)
  case Nil
  then show ?case by simp
next
  case (Cons c cs)
  from do_push_open_ex [OF Cons.prems] obtain v h1 ll1
    where d: "do_push c (h, ll) = Inr (v, h1, ll1)" by blast
  from do_push_Inr(2) [OF d] Cons.IH obtain vs h' ll'
    where "run_pushes cs (h1, ll1) = Inr (vs, h', ll')" by blast
  with d show ?case by simp
qed

lemma run_pushes_length:
  "run_pushes cs (h, ll) = Inr (vs, h', ll') \<Longrightarrow> length vs = length cs"
proof (induction cs arbitrary: h ll vs)
  case Nil
  then show ?case by simp
next
  case (Cons c cs)
  from Cons.prems show ?case
    by (rule run_pushes_Cons_Inr) (auto dest: Cons.IH)
qed

lemma run_pushes_builder:
  "run_pushes cs (h, ll) = Inr (vs, h', ll') \<Longrightarrow>
     lets ll' = lets ll @ zip vs (map call_expr cs) \<and> used ll' = used ll"
proof (induction cs arbitrary: h ll vs)
  case Nil
  then show ?case by simp
next
  case (Cons c cs)
  from Cons.prems obtain v h1 ll1 vs' where d: "do_push c (h, ll) = Inr (v, h1, ll1)"
    and r: "run_pushes cs (h1, ll1) = Inr (vs', h', ll')" and vs: "vs = v # vs'"
    by (rule run_pushes_Cons_Inr)
  from Cons.IH [OF r] do_push_Inr(1,2,3) [OF d] vs show ?case by simp
qed

lemma run_pushes_heap_grows:
  "run_pushes cs (h, ll) = Inr (vs, h', ll') \<Longrightarrow> \<exists>ns. h' = h @ ns"
proof (induction cs arbitrary: h ll vs)
  case Nil
  then show ?case by simp
next
  case (Cons c cs)
  from Cons.prems obtain v h1 ll1 vs' where d: "do_push c (h, ll) = Inr (v, h1, ll1)"
    and r: "run_pushes cs (h1, ll1) = Inr (vs', h', ll')" and vs: "vs = v # vs'"
    by (rule run_pushes_Cons_Inr)
  from Cons.IH [OF r] obtain ns where ns: "h' = h1 @ ns" by blast
  show ?case
  proof (cases "anonymous c")
    case True
    with do_push_Inr(5) [OF d] ns show ?thesis by auto
  next
    case False
    with do_push_Inr(6) [OF d] ns show ?thesis by auto
  qed
qed

text \<open>
  The variable of an anonymous call: a new address, holding the type of the call and a name
  that no node at a smaller address carries.
\<close>

lemma run_pushes_anonymous:
  "run_pushes cs (h, ll) = Inr (vs, h', ll') \<Longrightarrow> j < length cs \<Longrightarrow> anonymous (cs ! j) \<Longrightarrow>
     \<exists>a. vs ! j = Var a \<and> length h \<le> a \<and> a < length h'
        \<and> name_hint (h' ! a) \<notin> name_hint ` set (take a h')
        \<and> (\<forall>t e. cs ! j = PushType t e \<longrightarrow> type_annotation (h' ! a) = t)
        \<and> (\<forall>e. cs ! j = PushExpr e \<longrightarrow> type_annotation (h' ! a) = Type_null)"
proof (induction cs arbitrary: h ll vs j)
  case Nil
  then show ?case by simp
next
  case (Cons c cs)
  from Cons.prems(1) obtain v h1 ll1 vs' where d: "do_push c (h, ll) = Inr (v, h1, ll1)"
    and r: "run_pushes cs (h1, ll1) = Inr (vs', h', ll')" and vs: "vs = v # vs'"
    by (rule run_pushes_Cons_Inr)
  from run_pushes_heap_grows [OF r] obtain ns where ns: "h' = h1 @ ns" by blast
  show ?case
  proof (cases j)
    case 0
    with Cons.prems have an: "anonymous c" by simp
    from do_push_Inr(4) [OF d an] have v: "v = Var (length h)" .
    from do_push_Inr(5) [OF d an] obtain n where n: "h1 = h @ [n]"
      "name_hint n \<notin> name_hint ` set h"
      "\<forall>t e. c = PushType t e \<longrightarrow> type_annotation n = t"
      "\<forall>e. c = PushExpr e \<longrightarrow> type_annotation n = Type_null" by blast
    from ns n(1) have "h' ! length h = n" "take (length h) h' = h" "length h < length h'"
      by simp_all
    with v vs 0 n(2,3,4) show ?thesis by simp
  next
    case (Suc j')
    with Cons.prems have "j' < length cs" "anonymous (cs ! j')" by simp_all
    from Cons.IH [OF r this] obtain a where
      "vs' ! j' = Var a" "length h1 \<le> a" "a < length h'"
      "name_hint (h' ! a) \<notin> name_hint ` set (take a h')"
      "\<forall>t e. cs ! j' = PushType t e \<longrightarrow> type_annotation (h' ! a) = t"
      "\<forall>e. cs ! j' = PushExpr e \<longrightarrow> type_annotation (h' ! a) = Type_null"
      by blast
    with do_push_Inr(7) [OF d] vs Suc show ?thesis by auto
  qed
qed

text \<open>The variable of an explicit call is the handle passed.\<close>

lemma run_pushes_explicit:
  "run_pushes cs (h, ll) = Inr (vs, h', ll') \<Longrightarrow> k < length cs \<Longrightarrow> cs ! k = PushVar pv expr
     \<Longrightarrow> vs ! k = pv"
proof (induction cs arbitrary: h ll vs k)
  case Nil
  then show ?case by simp
next
  case (Cons c cs)
  from Cons.prems(1) obtain v h1 ll1 vs' where d: "do_push c (h, ll) = Inr (v, h1, ll1)"
    and r: "run_pushes cs (h1, ll1) = Inr (vs', h', ll')" and vs: "vs = v # vs'"
    by (rule run_pushes_Cons_Inr)
  show ?case
  proof (cases k)
    case 0
    with Cons.prems have "c = PushVar pv expr" by simp
    with d have "v = pv" by (auto simp: Push_def split: if_splits)
    with vs 0 show ?thesis by simp
  next
    case (Suc k')
    with Cons.prems have "k' < length cs" "cs ! k' = PushVar pv expr" by simp_all
    from Cons.IH [OF r this] vs Suc show ?thesis by simp
  qed
qed

lemma handles_exist_nth:
  "handles_exist h cs \<Longrightarrow> k < length cs \<Longrightarrow> cs ! k = PushVar pv expr \<Longrightarrow> present h pv"
proof (induction h cs arbitrary: k rule: handles_exist.induct)
  case (1 h)
  then show ?case by simp
next
  case (2 h pv' expr' cs)
  then show ?case by (cases k) auto
next
  case (3 h ty expr' cs)
  then show ?case by (cases k) auto
next
  case (4 h expr' cs)
  then show ?case by (cases k) auto
qed

lemma handles_exist_replicate_PushExpr: "handles_exist h (replicate n (PushExpr expr))"
  by (induction n) simp_all

text \<open>Two anonymous calls return different variables with different names.\<close>

lemma run_pushes_two_anonymous:
  assumes r: "run_pushes cs (h, ll) = Inr (vs, h', ll')"
    and i: "i < length cs" and j: "j < length cs" and ij: "i \<noteq> j"
    and ai: "anonymous (cs ! i)" and aj: "anonymous (cs ! j)"
  shows "vs ! i \<noteq> vs ! j \<and> var_name h' (vs ! i) \<noteq> var_name h' (vs ! j)"
proof -
  have less: "vs ! i \<noteq> vs ! j"
    if "run_pushes cs (h, ll) = Inr (vs, h', ll')" "i < j" "j < length cs"
      "anonymous (cs ! i)" "anonymous (cs ! j)" for cs h ll vs i j
    using that
  proof (induction cs arbitrary: h ll vs i j)
    case Nil
    then show ?case by simp
  next
    case (Cons c cs)
    from Cons.prems(1) obtain v h1 ll1 vs' where d: "do_push c (h, ll) = Inr (v, h1, ll1)"
      and r: "run_pushes cs (h1, ll1) = Inr (vs', h', ll')" and vs: "vs = v # vs'"
      by (rule run_pushes_Cons_Inr)
    from Cons.prems obtain j' where j: "j = Suc j'" "j' < length cs" "anonymous (cs ! j')"
      by (cases j) auto
    from run_pushes_anonymous [OF r j(2,3)] obtain a where a: "vs' ! j' = Var a" "length h1 \<le> a"
      by blast
    show ?case
    proof (cases i)
      case 0
      with Cons.prems have an: "anonymous c" by simp
      from do_push_Inr(4,5) [OF d an] have "v = Var (length h)" "length h1 = Suc (length h)"
        by auto
      with a vs j 0 show ?thesis by simp
    next
      case (Suc i')
      with Cons.prems j have "i' < j'" "anonymous (cs ! i')" by simp_all
      from Cons.IH [OF r this(1) j(2) this(2) j(3)] vs Suc j show ?thesis by simp
    qed
  qed
  have nodes: "vs ! i \<noteq> vs ! j"
  proof (cases "i < j")
    case True
    from less [OF r True j ai aj] show ?thesis .
  next
    case False
    with ij have "j < i" by simp
    from less [OF r this i aj ai] show ?thesis by simp
  qed
  from run_pushes_anonymous [OF r i ai] obtain a where a: "vs ! i = Var a" "a < length h'"
    "name_hint (h' ! a) \<notin> name_hint ` set (take a h')" by blast
  from run_pushes_anonymous [OF r j aj] obtain b where b: "vs ! j = Var b" "b < length h'"
    "name_hint (h' ! b) \<notin> name_hint ` set (take b h')" by blast
  from nodes a(1) b(1) have ab: "a \<noteq> b" by simp
  have "name_hint (h' ! a) \<noteq> name_hint (h' ! b)"
  proof (cases "a < b")
    case True
    with b(2) have "h' ! a \<in> set (take b h')"
      by (auto simp: in_set_conv_nth intro!: exI [of _ a])
    then have "name_hint (h' ! a) \<in> name_hint ` set (take b h')" by (rule imageI)
    with b(3) show ?thesis by metis
  next
    case False
    with ab have "b < a" by simp
    with a(2) have "h' ! b \<in> set (take a h')"
      by (auto simp: in_set_conv_nth intro!: exI [of _ b])
    then have "name_hint (h' ! b) \<in> name_hint ` set (take a h')" by (rule imageI)
    with a(3) show ?thesis by metis
  qed
  with nodes a(1,2) b(1,2) show ?thesis by (simp add: var_name_def node_of_def)
qed

text \<open>
  An anonymous call and a call that passes a variable of the caller return different
  variables with different names.
\<close>

lemma run_pushes_explicit_anonymous:
  assumes r: "run_pushes cs (h, ll) = Inr (vs, h', ll')" and ok: "handles_exist h cs"
    and i: "i < length cs" and j: "j < length cs"
    and ei: "\<not> anonymous (cs ! i)" and aj: "anonymous (cs ! j)"
  shows "vs ! i \<noteq> vs ! j \<and> var_name h' (vs ! i) \<noteq> var_name h' (vs ! j)"
proof -
  from ei obtain pv expr where c: "cs ! i = PushVar pv expr" by (cases "cs ! i") auto
  from run_pushes_explicit [OF r i c] have v: "vs ! i = pv" .
  from handles_exist_nth [OF ok i c] obtain a where a: "pv = Var a" "a < length h"
    by (cases pv) (auto simp: present_def)
  from run_pushes_anonymous [OF r j aj] obtain b where b: "vs ! j = Var b" "length h \<le> b"
    "b < length h'" "name_hint (h' ! b) \<notin> name_hint ` set (take b h')" by blast
  from a(2) b(2,3) have ab: "a < b" "a < length h'" by simp_all
  with b(3) have "h' ! a \<in> set (take b h')"
    by (auto simp: in_set_conv_nth intro!: exI [of _ a])
  then have "name_hint (h' ! a) \<in> name_hint ` set (take b h')" by (rule imageI)
  with b(4) have "name_hint (h' ! a) \<noteq> name_hint (h' ! b)" by metis
  with v a(1) b(1,3) ab show ?thesis by (simp add: var_name_def node_of_def)
qed

section \<open>The loop of Get\<close>

lemma Get_loop_snoc:
  "Get_loop (rits @ [b]) ret = LetNode (fst b) (snd b) (Get_loop rits ret)"
  by (induction rits arbitrary: ret) simp_all

lemma Get_loop_rev_Cons:
  "Get_loop (rev (b # bs)) body = LetNode (fst b) (snd b) (Get_loop (rev bs) body)"
  by (simp add: Get_loop_snoc)

lemma unlet_Get_loop: "unlet (length bs) (Get_loop (rev bs) body) = Some (bs, body)"
proof (induction bs)
  case Nil
  show ?case by simp
next
  case (Cons b bs)
  have "unlet (Suc (length bs)) (LetNode (fst b) (snd b) (Get_loop (rev bs) body))
          = Some ((fst b, snd b) # bs, body)"
    using Cons.IH by simp
  then show ?case by (simp only: Get_loop_rev_Cons length_Cons prod.collapse)
qed

lemma let_at_Get_loop:
  "k < length bs \<Longrightarrow> let_at k (Get_loop (rev bs) body) = Some (bs ! k)"
proof (induction bs arbitrary: k)
  case Nil
  then show ?case by simp
next
  case (Cons b bs)
  show ?case
  proof (cases k)
    case 0
    then show ?thesis by (simp only: Get_loop_rev_Cons let_at.simps nth_Cons_0 prod.collapse)
  next
    case (Suc k')
    with Cons.prems have "k' < length bs" by simp
    from Cons.IH [OF this] Suc show ?thesis
      by (simp only: Get_loop_rev_Cons let_at.simps nth_Cons_Suc)
  qed
qed

section \<open>Finalizing with Get\<close>

text \<open>
  C1. Whatever calls of \<^verbatim>\<open>Push\<close> are made on a new builder, they all succeed, and
  \<^verbatim>\<open>Get(body)\<close> on the builder then returns an expression with one let-construct for each
  call around \<open>body\<close>: taking as many lets off the outside as there were calls leaves exactly
  \<open>body\<close>, and the let at depth \<open>k\<close> (the outermost at depth 0) binds the variable that call
  number \<open>k\<close> returned to the expression that call pushed. For a call of the explicit overload
  that variable is the one the caller passed.
\<close>

theorem Get_nests_lets_in_push_order:
  "\<exists>vs h' ll ret.
      run_pushes cs (h, LetList_new) = Inr (vs, h', ll)
    \<and> length vs = length cs
    \<and> lets ll = zip vs (map call_expr cs)
    \<and> Get body ll = Inr (ret, ll\<lparr>used := True\<rparr>)
    \<and> unlet (length cs) ret = Some (zip vs (map call_expr cs), body)
    \<and> (\<forall>k<length cs. let_at k ret = Some (vs ! k, call_expr (cs ! k)))
    \<and> (\<forall>k<length cs. \<forall>pv expr. cs ! k = PushVar pv expr \<longrightarrow> vs ! k = pv)"
proof -
  have o: "\<not> used LetList_new" by (simp add: LetList_new_def)
  from run_pushes_open_ex [OF o] obtain vs h' ll
    where r: "run_pushes cs (h, LetList_new) = Inr (vs, h', ll)" by blast
  have len: "length vs = length cs" by (rule run_pushes_length [OF r])
  from run_pushes_builder [OF r]
  have ls: "lets ll = zip vs (map call_expr cs)" and u: "\<not> used ll"
    by (simp_all add: LetList_new_def)
  define ret where "ret = Get_loop (rev (lets ll)) body"
  have g: "Get body ll = Inr (ret, ll\<lparr>used := True\<rparr>)"
    unfolding ret_def by (rule Get_open [OF u])
  have n: "length (lets ll) = length cs" by (simp add: ls len)
  have "unlet (length (lets ll)) ret = Some (lets ll, body)"
    unfolding ret_def by (rule unlet_Get_loop)
  then have un: "unlet (length cs) ret = Some (zip vs (map call_expr cs), body)"
    unfolding n by (simp only: ls)
  have at: "\<forall>k<length cs. let_at k ret = Some (vs ! k, call_expr (cs ! k))"
  proof (intro allI impI)
    fix k assume k: "k < length cs"
    then have "let_at k ret = Some (lets ll ! k)"
      unfolding ret_def by (simp add: let_at_Get_loop n)
    with k show "let_at k ret = Some (vs ! k, call_expr (cs ! k))" by (simp add: ls len)
  qed
  have ex: "\<forall>k<length cs. \<forall>pv expr. cs ! k = PushVar pv expr \<longrightarrow> vs ! k = pv"
    using run_pushes_explicit [OF r] by blast
  from r len ls g un at ex show ?thesis by blast
qed

theorem Get_nests_lets_in_push_order_witness:
  "run_pushes [PushVar (Var 0) (Constant 1), PushExpr (Constant 2), PushVar (Var 0) (Constant 3)]
       ([\<lparr>name_hint = ''a'', type_annotation = Type_null\<rparr>], LetList_new)
     = Inr ([Var 0, Var 1, Var 0],
            [\<lparr>name_hint = ''a'', type_annotation = Type_null\<rparr>,
             \<lparr>name_hint = ''x'', type_annotation = Type_null\<rparr>],
            \<lparr>lets = [(Var 0, Constant 1), (Var 1, Constant 2), (Var 0, Constant 3)],
             used = False\<rparr>)
   \<and> Get (Constant 9)
        \<lparr>lets = [(Var 0, Constant 1), (Var 1, Constant 2), (Var 0, Constant 3)], used = False\<rparr>
     = Inr (LetNode (Var 0) (Constant 1) (LetNode (Var 1) (Constant 2)
              (LetNode (Var 0) (Constant 3) (Constant 9))),
            \<lparr>lets = [(Var 0, Constant 1), (Var 1, Constant 2), (Var 0, Constant 3)],
             used = True\<rparr>)
   \<and> let_at 2 (LetNode (Var 0) (Constant 1) (LetNode (Var 1) (Constant 2)
              (LetNode (Var 0) (Constant 3) (Constant 9)))) = Some (Var 0, Constant 3)"
  using Get_nests_lets_in_push_order
    [of "[PushVar (Var 0) (Constant 1), PushExpr (Constant 2), PushVar (Var 0) (Constant 3)]"
        "[\<lparr>name_hint = ''a'', type_annotation = Type_null\<rparr>]" "Constant 9"]
  by (auto simp: LetList_new_def Push_def Push_expr_def Push_ty_def VarNode_make_def Get_def
      unique_name.simps numeral_2_eq_2)

text \<open>
  C5. On a new builder, with nothing pushed, \<^verbatim>\<open>Get(body)\<close> returns \<open>body\<close> itself: the loop
  runs zero times and no let-construct is put around it.
\<close>

theorem Get_empty_returns_body:
  "Get body LetList_new = Inr (body, \<lparr>lets = [], used = True\<rparr>)"
  by (simp add: Get_def LetList_new_def)

section \<open>Synthesized variables\<close>

text \<open>
  C2. Let the calls \<open>cs\<close> be made on a new builder, the variables passed to the explicit
  overload being variables the caller made beforehand. All calls succeed, and each
  anonymous call (typed or untyped) returns a variable whose node did not exist before the
  calls began, exists afterwards, and differs both as a node and in its name from the
  variable returned by every other call on the builder, of whichever overload. This holds
  for call sequences of any length.
\<close>

theorem anonymous_Push_fresh_variable:
  assumes "handles_exist h cs"
  shows "\<exists>vs h' ll.
      run_pushes cs (h, LetList_new) = Inr (vs, h', ll)
    \<and> length vs = length cs
    \<and> (\<forall>j<length cs. anonymous (cs ! j) \<longrightarrow>
          \<not> present h (vs ! j) \<and> present h' (vs ! j)
        \<and> (\<forall>i<length cs. i \<noteq> j \<longrightarrow>
              vs ! i \<noteq> vs ! j \<and> var_name h' (vs ! i) \<noteq> var_name h' (vs ! j)))"
proof -
  have o: "\<not> used LetList_new" by (simp add: LetList_new_def)
  from run_pushes_open_ex [OF o] obtain vs h' ll
    where r: "run_pushes cs (h, LetList_new) = Inr (vs, h', ll)" by blast
  have len: "length vs = length cs" by (rule run_pushes_length [OF r])
  have "\<not> present h (vs ! j) \<and> present h' (vs ! j)
        \<and> (\<forall>i<length cs. i \<noteq> j \<longrightarrow>
              vs ! i \<noteq> vs ! j \<and> var_name h' (vs ! i) \<noteq> var_name h' (vs ! j))"
    if j: "j < length cs" and an: "anonymous (cs ! j)" for j
  proof -
    from run_pushes_anonymous [OF r j an] obtain a
      where a: "vs ! j = Var a" "length h \<le> a" "a < length h'" by blast
    then have p: "\<not> present h (vs ! j)" "present h' (vs ! j)"
      by (simp_all add: present_def)
    have "vs ! i \<noteq> vs ! j \<and> var_name h' (vs ! i) \<noteq> var_name h' (vs ! j)"
      if i: "i < length cs" and ij: "i \<noteq> j" for i
    proof (cases "anonymous (cs ! i)")
      case True
      from run_pushes_two_anonymous [OF r i j ij True an] show ?thesis .
    next
      case False
      from run_pushes_explicit_anonymous [OF r assms i j False an] show ?thesis .
    qed
    with p show ?thesis by blast
  qed
  with r len show ?thesis by blast
qed

text \<open>
  A caller that has one variable of its own, named x, pushes it and then makes one thousand
  untyped anonymous pushes: the one thousand and one variables returned are all different,
  and so are their names.
\<close>

theorem anonymous_Push_fresh_variable_witness:
  "\<exists>vs h' ll.
      run_pushes (PushVar (Var 0) (Constant 7) # replicate 1000 (PushExpr (Constant 0)))
        ([\<lparr>name_hint = ''x'', type_annotation = Type_null\<rparr>], LetList_new) = Inr (vs, h', ll)
    \<and> length vs = 1001 \<and> distinct vs \<and> distinct (map (var_name h') vs)"
proof -
  let ?h = "[\<lparr>name_hint = ''x'', type_annotation = Type_null\<rparr>]"
  let ?cs = "PushVar (Var 0) (Constant 7) # replicate 1000 (PushExpr (Constant 0))"
  have ok: "handles_exist ?h ?cs"
    by (simp add: present_def handles_exist_replicate_PushExpr)
  from anonymous_Push_fresh_variable [OF ok] obtain vs h' ll
    where r: "run_pushes ?cs (?h, LetList_new) = Inr (vs, h', ll)"
      and len: "length vs = length ?cs"
      and d: "\<forall>j<length ?cs. anonymous (?cs ! j) \<longrightarrow>
          \<not> present ?h (vs ! j) \<and> present h' (vs ! j)
        \<and> (\<forall>i<length ?cs. i \<noteq> j \<longrightarrow>
              vs ! i \<noteq> vs ! j \<and> var_name h' (vs ! i) \<noteq> var_name h' (vs ! j))"
    by blast
  have n: "length vs = 1001" using len by simp
  have an: "anonymous (?cs ! j)" if "0 < j" "j < length ?cs" for j
    using that by (cases j) simp_all
  have apart: "vs ! i \<noteq> vs ! j \<and> var_name h' (vs ! i) \<noteq> var_name h' (vs ! j)"
    if i: "i < length vs" and j: "j < length vs" and ij: "i \<noteq> j" for i j
  proof (cases "0 < j")
    case True
    from i j len have "i < length ?cs" "j < length ?cs" by simp_all
    with d an [OF True] ij show ?thesis by blast
  next
    case False
    with ij have "0 < i" by simp
    from i j len have "i < length ?cs" "j < length ?cs" by simp_all
    with d an [OF \<open>0 < i\<close>] ij
    have "vs ! j \<noteq> vs ! i \<and> var_name h' (vs ! j) \<noteq> var_name h' (vs ! i)" by blast
    then show ?thesis by (simp add: eq_commute [of "vs ! i"] eq_commute [of "var_name h' (vs ! i)"])
  qed
  then have "distinct vs" by (simp add: distinct_conv_nth)
  moreover from apart have "distinct (map (var_name h') vs)" by (simp add: distinct_conv_nth)
  ultimately show ?thesis using r n by blast
qed




section \<open>Misuse of a closed builder\<close>

text \<open>
  C3. Once \<^verbatim>\<open>Get\<close> has returned on a builder, every overload of \<^verbatim>\<open>Push\<close> called on that
  builder fails with the fatal check \<^verbatim>\<open>CHECK(!used_)\<close>: the call does not return a variable
  and leaves no builder with a longer sequence behind.
\<close>

theorem Push_after_Get_fails:
  assumes "Get body ll = Inr (ret, ll')"
  shows "Push pv expr ll' = Inl (CheckFailed ''!used_'')
       \<and> Push_ty ty expr (h, ll') = Inl (CheckFailed ''!used_'')
       \<and> Push_expr expr (h, ll') = Inl (CheckFailed ''!used_'')"
proof -
  from assms have "used ll'"
    by (auto simp: Get_def split: if_splits)
  then show ?thesis
    by (simp add: Push_closed Push_ty_closed Push_expr_def)
qed

theorem Push_after_Get_fails_witness:
  "Get (Constant 7) \<lparr>lets = [(Var 0, Constant 1)], used = False\<rparr>
     = Inr (LetNode (Var 0) (Constant 1) (Constant 7),
            \<lparr>lets = [(Var 0, Constant 1)], used = True\<rparr>)
   \<and> Push (Var 0) (Constant 2) \<lparr>lets = [(Var 0, Constant 1)], used = True\<rparr>
     = Inl (CheckFailed ''!used_'')
   \<and> Push_ty (Type_node 4) (Constant 2) ([], \<lparr>lets = [(Var 0, Constant 1)], used = True\<rparr>)
     = Inl (CheckFailed ''!used_'')
   \<and> Push_expr (Constant 2) ([], \<lparr>lets = [(Var 0, Constant 1)], used = True\<rparr>)
     = Inl (CheckFailed ''!used_'')"
proof -
  have g: "Get (Constant 7) \<lparr>lets = [(Var 0, Constant 1)], used = False\<rparr>
     = Inr (LetNode (Var 0) (Constant 1) (Constant 7),
            \<lparr>lets = [(Var 0, Constant 1)], used = True\<rparr>)"
    by (simp add: Get_def)
  show ?thesis
    using g Push_after_Get_fails [OF g, of "Var 0" "Constant 2" "Type_node 4" "[]"] by simp
qed

text \<open>
  C4. On a builder that has only been pushed to since it was created, the first call of
  \<^verbatim>\<open>Get\<close> returns, and a second call of \<^verbatim>\<open>Get\<close> on the builder it leaves, with
  any body, fails with the fatal check \<^verbatim>\<open>CHECK(!used_)\<close>.
\<close>

theorem Get_twice_second_fails:
  "\<exists>vs h' ll ret ll'.
      run_pushes cs (h, LetList_new) = Inr (vs, h', ll)
    \<and> Get body ll = Inr (ret, ll')
    \<and> Get body' ll' = Inl (CheckFailed ''!used_'')"
proof -
  have o: "\<not> used LetList_new" by (simp add: LetList_new_def)
  from run_pushes_open_ex [OF o] obtain vs h' ll
    where r: "run_pushes cs (h, LetList_new) = Inr (vs, h', ll)" by blast
  from run_pushes_builder [OF r] o have u: "\<not> used ll" by simp
  have g: "Get body ll = Inr (Get_loop (rev (lets ll)) body, ll\<lparr>used := True\<rparr>)"
    by (rule Get_open [OF u])
  have "Get body' (ll\<lparr>used := True\<rparr>) = Inl (CheckFailed ''!used_'')"
    by (rule Get_closed) simp
  with r g show ?thesis by blast
qed

text \<open>
  C10. \<^verbatim>\<open>Get\<close> on a new builder with nothing pushed returns the body and leaves the
  builder closed, still with no bindings: every overload of \<^verbatim>\<open>Push\<close> and a further
  \<^verbatim>\<open>Get\<close> then fail with the fatal check.
\<close>

theorem Get_empty_closes:
  "\<exists>ll'. Get body LetList_new = Inr (body, ll')
     \<and> used ll' \<and> lets ll' = []
     \<and> Push pv expr ll' = Inl (CheckFailed ''!used_'')
     \<and> Push_ty ty expr (h, ll') = Inl (CheckFailed ''!used_'')
     \<and> Push_expr expr (h, ll') = Inl (CheckFailed ''!used_'')
     \<and> Get body' ll' = Inl (CheckFailed ''!used_'')"
proof -
  let ?ll = "\<lparr>lets = [], used = True\<rparr>"
  have g: "Get body LetList_new = Inr (body, ?ll)"
    by (simp add: Get_open LetList_new_def)
  have u: "used ?ll" by simp
  from g u Push_closed [OF u] Push_ty_closed [OF u] Get_closed [OF u]
  show ?thesis by (auto simp: Push_expr_def)
qed

section \<open>Pushing\<close>

text \<open>
  C7. On an open builder, \<^verbatim>\<open>Push(pv, expr)\<close> returns \<open>pv\<close> itself and leaves the builder
  open with the binding \<open>(pv, expr)\<close> added at the end: the sequence is one longer, its last
  element is the new binding, and every earlier position holds the binding it held before.
  The store of variable nodes is not touched.
\<close>

theorem Push_explicit_appends:
  assumes "\<not> used ll"
  shows "\<exists>ll'. Push pv expr ll = Inr (pv, ll')
     \<and> do_push (PushVar pv expr) (h, ll) = Inr (pv, h, ll')
     \<and> lets ll' = lets ll @ [(pv, expr)]
     \<and> length (lets ll') = Suc (length (lets ll))
     \<and> take (length (lets ll)) (lets ll') = lets ll
     \<and> lets ll' ! length (lets ll) = (pv, expr)
     \<and> (\<forall>i<length (lets ll). lets ll' ! i = lets ll ! i)
     \<and> \<not> used ll'"
proof -
  let ?ll = "ll\<lparr>lets := lets ll @ [(pv, expr)]\<rparr>"
  have p: "Push pv expr ll = Inr (pv, ?ll)" by (rule Push_open [OF assms])
  have d: "do_push (PushVar pv expr) (h, ll) = Inr (pv, h, ?ll)"
    by (rule do_push_PushVar_open [OF assms])
  have "\<forall>i<length (lets ll). lets ?ll ! i = lets ll ! i" by (simp add: nth_append)
  with p d assms show ?thesis by auto
qed

theorem Push_explicit_appends_witness:
  "Push (Var 5) (Constant 2) \<lparr>lets = [(Var 3, Constant 1)], used = False\<rparr>
     = Inr (Var 5, \<lparr>lets = [(Var 3, Constant 1), (Var 5, Constant 2)], used = False\<rparr>)"
  using Push_explicit_appends [of "\<lparr>lets = [(Var 3, Constant 1)], used = False\<rparr>"
      "Var 5" "Constant 2" "[]"]
  by auto

text \<open>
  C8. \<^verbatim>\<open>Push(expr)\<close> gives the same result, the same store and the same builder as the
  typed overload called with the undefined type \<^verbatim>\<open>Type()\<close>: the fatal check on a closed
  builder, and otherwise a new variable without a type, named from the base name x, bound to
  \<open>expr\<close> at the end of the sequence.
\<close>

theorem Push_untyped_is_typed_with_null:
  "Push_expr expr (h, ll) = Push_ty Type_null expr (h, ll)
   \<and> Push_expr expr (h, ll) =
       (if used ll then Inl (CheckFailed ''!used_'')
        else Inr (Var (length h),
                  h @ [\<lparr>name_hint = unique_name ''x'' (map name_hint h),
                        type_annotation = Type_null\<rparr>],
                  ll\<lparr>lets := lets ll @ [(Var (length h), expr)]\<rparr>))"
  by (simp add: Push_expr_def Push_ty_open Push_ty_closed VarNode_make_def)

section \<open>The scoped wrapper\<close>

text \<open>
  C6. \<^verbatim>\<open>With(f)\<close> does what the specification words: a new builder, the callback on it,
  then \<^verbatim>\<open>Get\<close> on the body the callback returned. A failure of the callback is the
  failure of \<^verbatim>\<open>With\<close>, unchanged. When \<^verbatim>\<open>With\<close> returns, the callback had left the
  builder open and the one call of \<^verbatim>\<open>Get\<close> made by \<^verbatim>\<open>With\<close> closed it; a callback that
  returns the builder closed makes \<^verbatim>\<open>With\<close> fail with the fatal check.
\<close>

theorem With_is_new_call_Get:
  "With f h = With_spec f h
   \<and> (\<forall>e. f (h, LetList_new) = Inl e \<longrightarrow> With f h = Inl e)
   \<and> (\<forall>ret h' ll''. With f h = Inr (ret, h', ll'') \<longrightarrow>
        (\<exists>body ll'. f (h, LetList_new) = Inr (body, h', ll') \<and> \<not> used ll'
           \<and> Get body ll' = Inr (ret, ll'') \<and> used ll''))
   \<and> (\<forall>body h' ll'. f (h, LetList_new) = Inr (body, h', ll') \<longrightarrow>
        With f h = (if used ll' then Inl (CheckFailed ''!used_'')
                    else Inr (Get_loop (rev (lets ll')) body, h', ll'\<lparr>used := True\<rparr>)))"
proof (intro conjI allI impI)
  show "With f h = With_spec f h"
    by (simp add: With_def With_spec_def then_do_def LetList_new_def split: sum.splits prod.splits)
next
  fix e assume "f (h, LetList_new) = Inl e"
  then show "With f h = Inl e" by (simp add: With_def)
next
  fix ret h' ll'' assume w: "With f h = Inr (ret, h', ll'')"
  then obtain body ll' where f: "f (h, LetList_new) = Inr (body, h', ll')"
    and g: "Get body ll' = Inr (ret, ll'')"
    by (auto simp: With_def split: sum.splits)
  from g have "\<not> used ll'" "used ll''" by (auto simp: Get_def split: if_splits)
  with f g show "\<exists>body ll'. f (h, LetList_new) = Inr (body, h', ll') \<and> \<not> used ll'
           \<and> Get body ll' = Inr (ret, ll'') \<and> used ll''" by blast
next
  fix body h' ll' assume "f (h, LetList_new) = Inr (body, h', ll')"
  then show "With f h = (if used ll' then Inl (CheckFailed ''!used_'')
                    else Inr (Get_loop (rev (lets ll')) body, h', ll'\<lparr>used := True\<rparr>))"
    by (simp add: With_def Get_def)
qed

theorem With_is_new_call_Get_witness:
  "With (\<lambda>s. Inl (Thrown ''boom'')) [] = Inl (Thrown ''boom'')
   \<and> With (mult_sixteen_callback (Var 0)) [\<lparr>name_hint = ''a'', type_annotation = Type_null\<rparr>]
     = Inr (LetNode (Var 1) (Call plus [VarE (Var 0), VarE (Var 0)])
              (LetNode (Var 2) (Call plus [VarE (Var 1), VarE (Var 1)])
                 (LetNode (Var 3) (Call plus [VarE (Var 2), VarE (Var 2)])
                    (Call plus [VarE (Var 3), VarE (Var 3)]))),
            [\<lparr>name_hint = ''a'', type_annotation = Type_null\<rparr>,
             \<lparr>name_hint = ''x'', type_annotation = Type_null\<rparr>,
             \<lparr>name_hint = ''x_'', type_annotation = Type_null\<rparr>,
             \<lparr>name_hint = ''x__'', type_annotation = Type_null\<rparr>],
            \<lparr>lets = [(Var 1, Call plus [VarE (Var 0), VarE (Var 0)]),
                     (Var 2, Call plus [VarE (Var 1), VarE (Var 1)]),
                     (Var 3, Call plus [VarE (Var 2), VarE (Var 2)])],
             used = True\<rparr>)"
proof -
  let ?h = "[\<lparr>name_hint = ''a'', type_annotation = Type_null\<rparr>]"
  have f1: "(\<lambda>s. Inl (Thrown ''boom'') :: error + (Expr \<times> heap \<times> LetList)) ([], LetList_new)
              = Inl (Thrown ''boom'')" by simp
  have f2: "mult_sixteen_callback (Var 0) (?h, LetList_new)
     = Inr (Call plus [VarE (Var 3), VarE (Var 3)],
            [\<lparr>name_hint = ''a'', type_annotation = Type_null\<rparr>,
             \<lparr>name_hint = ''x'', type_annotation = Type_null\<rparr>,
             \<lparr>name_hint = ''x_'', type_annotation = Type_null\<rparr>,
             \<lparr>name_hint = ''x__'', type_annotation = Type_null\<rparr>],
            \<lparr>lets = [(Var 1, Call plus [VarE (Var 0), VarE (Var 0)]),
                     (Var 2, Call plus [VarE (Var 1), VarE (Var 1)]),
                     (Var 3, Call plus [VarE (Var 2), VarE (Var 2)])],
             used = False\<rparr>)"
    by (simp add: mult_sixteen_callback_def Push_expr_def Push_ty_def VarNode_make_def Push_def
        LetList_new_def unique_name.simps)
  from With_is_new_call_Get [of "\<lambda>s. Inl (Thrown ''boom'')" "[]"] f1
  have w1: "With (\<lambda>s. Inl (Thrown ''boom'')) [] = Inl (Thrown ''boom'')" by blast
  from With_is_new_call_Get [of "mult_sixteen_callback (Var 0)" ?h] f2
  have w2: "With (mult_sixteen_callback (Var 0)) ?h
     = (if used \<lparr>lets = [(Var 1, Call plus [VarE (Var 0), VarE (Var 0)]),
                     (Var 2, Call plus [VarE (Var 1), VarE (Var 1)]),
                     (Var 3, Call plus [VarE (Var 2), VarE (Var 2)])],
             used = False\<rparr> then Inl (CheckFailed ''!used_'')
        else Inr (Get_loop (rev (lets \<lparr>lets = [(Var 1, Call plus [VarE (Var 0), VarE (Var 0)]),
                     (Var 2, Call plus [VarE (Var 1), VarE (Var 1)]),
                     (Var 3, Call plus [VarE (Var 2), VarE (Var 2)])],
             used = False\<rparr>)) (Call plus [VarE (Var 3), VarE (Var 3)]),
             [\<lparr>name_hint = ''a'', type_annotation = Type_null\<rparr>,
             \<lparr>name_hint = ''x'', type_annotation = Type_null\<rparr>,
             \<lparr>name_hint = ''x_'', type_annotation = Type_null\<rparr>,
             \<lparr>name_hint = ''x__'', type_annotation = Type_null\<rparr>],
             \<lparr>lets = [(Var 1, Call plus [VarE (Var 0), VarE (Var 0)]),
                     (Var 2, Call plus [VarE (Var 1), VarE (Var 1)]),
                     (Var 3, Call plus [VarE (Var 2), VarE (Var 2)])],
             used = False\<rparr>\<lparr>used := True\<rparr>))"
    by blast
  from w1 w2 show ?thesis by simp
qed

end
